theory Spec2Isabelle
  imports
    Main
    "HOL-Library.Sublist"
    "HOL-Library.AList"
    "HOL-Library.Char_ord"
    "HOL-Library.List_Lexorder"
    "HOL-Library.Product_Lexorder"
begin

section \<open>Python strings\<close>

text \<open>
  A Python \<open>str\<close> is a sequence of code points. The model takes the code points below
  256 (ASCII and Latin-1), one \<^typ>\<open>char\<close> each, so \<^const>\<open>length\<close> is Python's
  \<open>len\<close>. Comparison of strings is Python's: lexicographic on code points, a proper
  prefix being smaller (the order of \<open>List_Lexorder\<close> over \<open>Char_ord\<close>).
\<close>

definition code_point :: "char \<Rightarrow> nat" where
  "code_point c = of_char c"

text \<open>\<open>str.lower()\<close> on this range: \<open>A\<close>..\<open>Z\<close> and the Latin-1 capitals
  (192..222 without the multiplication sign 215) move up by 32; every other code point
  stays.\<close>

definition lower_char :: "char \<Rightarrow> char" where
  "lower_char c =
     (let n = code_point c
      in if (65 \<le> n \<and> n \<le> 90) \<or> (192 \<le> n \<and> n \<le> 222 \<and> n \<noteq> 215)
         then char_of (n + 32) else c)"

definition lower :: "string \<Rightarrow> string" where
  "lower s = map lower_char s"

text \<open>\<open>k in n\<close> on strings: \<open>k\<close> occurs in \<open>n\<close> as a contiguous substring.\<close>

fun str_in :: "string \<Rightarrow> string \<Rightarrow> bool" where
  "str_in k [] = (k = [])"
| "str_in k (c # cs) = (prefix k (c # cs) \<or> str_in k cs)"

section \<open>Device scorer (capture.py)\<close>

definition weights :: "(string \<times> int) list" where
  "weights =
     [(''elgato'', 50), (''blackmagic'', 50), (''avermedia'', 45), (''hauppauge'', 45),
      (''capture'', 30), (''video'', 40), (''hdmi'', 25), (''usb'', 10), (''webcam'', 12),
      (''camera'', 5), (''cam'', 4)]"

text \<open>The \<open>for k, w in weights\<close> loop, with the running \<open>score\<close> as accumulator.\<close>

fun score_loop :: "string \<Rightarrow> (string \<times> int) list \<Rightarrow> int \<Rightarrow> int" where
  "score_loop n [] score = score"
| "score_loop n ((k, w) # rest) score =
     score_loop n rest (if str_in k n then score + w else score)"

definition score_device_name :: "string \<Rightarrow> int" where
  "score_device_name name =
     (let n = lower name;
          score = score_loop n weights 0
      in if length n > 20 then score + 2 else score)"

text \<open>\<open>sorted(..., reverse=True)\<close>: the list is reversed, sorted stably in ascending
  order and reversed again, so that equal elements keep their order. The elements are
  the tuples \<open>(score, name)\<close>, compared as Python compares tuples: by score, then by
  name.\<close>

definition sorted_reverse :: "('a::linorder) list \<Rightarrow> 'a list" where
  "sorted_reverse xs = rev (sort (rev xs))"

definition choose_best_device :: "string list \<Rightarrow> string option" where
  "choose_best_device devices =
     (if devices = [] then None
      else let scored = sorted_reverse (map (\<lambda>d. (score_device_name d, d)) devices)
           in Some (snd (hd scored)))"


section \<open>String helpers used by the enumerator\<close>

text \<open>\<open>str.isspace\<close> on the modelled range: tab to carriage return, the separators
  28..31, space, NEL (133) and the no-break space (160). \<open>str.strip()\<close> removes such
  characters from both ends.\<close>

definition is_space :: "char \<Rightarrow> bool" where
  "is_space c =
     (let n = code_point c
      in (9 \<le> n \<and> n \<le> 13) \<or> (28 \<le> n \<and> n \<le> 32) \<or> n = 133 \<or> n = 160)"

definition strip_chars :: "(char \<Rightarrow> bool) \<Rightarrow> string \<Rightarrow> string" where
  "strip_chars P s = rev (dropWhile P (rev (dropWhile P s)))"

definition strip :: "string \<Rightarrow> string" where
  "strip s = strip_chars is_space s"

text \<open>\<open>str.splitlines()\<close>: a line ends at a line feed, vertical tab, form feed,
  carriage return (with a following line feed taken as part of the same break), one of
  the separators 28..30, or NEL; the breaks are not kept, and no empty line is added
  after a final break.\<close>

definition is_linebreak :: "char \<Rightarrow> bool" where
  "is_linebreak c =
     (let n = code_point c in (10 \<le> n \<and> n \<le> 13) \<or> (28 \<le> n \<and> n \<le> 30) \<or> n = 133)"

fun splitlines_from :: "string \<Rightarrow> string \<Rightarrow> string list" where
  "splitlines_from cur [] = (if cur = [] then [] else [cur])"
| "splitlines_from cur [c] = (if is_linebreak c then [cur] else [cur @ [c]])"
| "splitlines_from cur (c # d # cs) =
     (if code_point c = 13 \<and> code_point d = 10 then cur # splitlines_from [] cs
      else if is_linebreak c then cur # splitlines_from [] (d # cs)
      else splitlines_from (cur @ [c]) (d # cs))"

definition splitlines :: "string \<Rightarrow> string list" where
  "splitlines s = splitlines_from [] s"

text \<open>\<open>line.split('"')\<close>: the pieces between the separators; a string with
  \<open>n\<close> separators has \<open>n + 1\<close> pieces. (The \<open>[]\<close> branch is never taken: the
  result is never empty.)\<close>

fun split_char :: "char \<Rightarrow> string \<Rightarrow> string list" where
  "split_char q [] = [[]]"
| "split_char q (c # cs) =
     (if c = q then [] # split_char q cs
      else (case split_char q cs of [] \<Rightarrow> [[c]] | p # ps \<Rightarrow> (c # p) # ps))"

definition startswith :: "string \<Rightarrow> string \<Rightarrow> bool" where
  "startswith s p = prefix p s"

definition endswith :: "string \<Rightarrow> string \<Rightarrow> bool" where
  "endswith s p = suffix p s"

text \<open>\<open>list(dict.fromkeys(xs))\<close>: the keys are inserted one by one into an
  insertion-ordered dictionary; inserting a key that is already there leaves its place
  unchanged.\<close>

fun fromkeys_loop :: "'a list \<Rightarrow> 'a list \<Rightarrow> 'a list" where
  "fromkeys_loop [] keys = keys"
| "fromkeys_loop (x # xs) keys =
     fromkeys_loop xs (if x \<in> set keys then keys else keys @ [x])"

definition dict_fromkeys :: "'a list \<Rightarrow> 'a list" where
  "dict_fromkeys xs = fromkeys_loop xs []"

section \<open>The outside world: processes, files, JSON\<close>

datatype exn = FileNotFoundError | TimeoutExpired | UnicodeDecodeError | JSONDecodeError | OSError

text \<open>What \<open>subprocess.run\<close> does with an argument vector: it raises (the program
  cannot be launched, the timeout expires, the output cannot be decoded), or it completes
  with a return code, standard output and standard error. No caller passes \<open>check=True\<close>,
  so a non-zero return code raises nothing.\<close>

datatype proc_result = Raises exn | Completed int string string

datatype json =
  JNull | JBool bool | JNum int | JStr string | JArr "json list" | JObj "(string \<times> json) list"

text \<open>A parsed JSON object is a Python \<open>dict\<close>: an association list with distinct
  keys, read with \<^const>\<open>map_of\<close> and written with \<^const>\<open>AList.update\<close>. Numbers
  are integers here. Truthiness is Python's.\<close>

fun truthy :: "json \<Rightarrow> bool" where
  "truthy JNull = False"
| "truthy (JBool b) = b"
| "truthy (JNum n) = (n \<noteq> 0)"
| "truthy (JStr s) = (s \<noteq> [])"
| "truthy (JArr xs) = (xs \<noteq> [])"
| "truthy (JObj kvs) = (kvs \<noteq> [])"

datatype event = Spawned "string list" | Wrote string string | Renamed string string

text \<open>The environment holds what the program cannot change: the JSON parser and printer
  (\<open>None\<close> from \<open>loads\<close> is a \<open>JSONDecodeError\<close>; the flag of \<open>dumps\<close> is
  \<open>ensure_ascii\<close>), the behaviour of external commands, the location of
  \<open>config.json\<close>, and which paths can be opened for reading, opened for writing, or
  renamed. The world holds the regular files with their contents and a log of the
  effects performed so far.\<close>

record env =
  loads :: "string \<Rightarrow> json option"
  dumps :: "bool \<Rightarrow> json \<Rightarrow> string"
  procs :: "string list \<Rightarrow> proc_result"
  config_path :: string
  readable :: "string \<Rightarrow> bool"
  writable :: "string \<Rightarrow> bool"
  renamable :: "string \<Rightarrow> string \<Rightarrow> bool"

record world =
  files :: "string \<rightharpoonup> string"
  log :: "event list"

definition powershell_argv :: "string \<Rightarrow> string list" where
  "powershell_argv command = [''powershell'', ''-NoProfile'', ''-Command'', command]"

definition run_powershell :: "env \<Rightarrow> string \<Rightarrow> world \<Rightarrow> (exn + string) \<times> world" where
  "run_powershell env command w =
     (let argv = powershell_argv command;
          w' = w\<lparr>log := log w @ [Spawned argv]\<rparr>
      in case procs env argv of
           Raises e \<Rightarrow> (Inl e, w')
         | Completed rc out err \<Rightarrow> (Inr (strip out), w'))"

definition run_cmd ::
  "env \<Rightarrow> string list \<Rightarrow> world \<Rightarrow> (exn + int \<times> string \<times> string) \<times> world" where
  "run_cmd env cmd w =
     (let w' = w\<lparr>log := log w @ [Spawned cmd]\<rparr>
      in case procs env cmd of
           Raises e \<Rightarrow> (Inl e, w')
         | Completed rc out err \<Rightarrow> (Inr (rc, strip out, strip err), w'))"


section \<open>Device enumerator (capture.py)\<close>

text \<open>A \<open>try\<close> block of the enumerator either raises (\<open>Inl\<close>), reaches its
  \<open>return\<close> with the list \<open>candidates\<close> (\<open>Inr (Some candidates)\<close>), or falls off its
  end (\<open>Inr None\<close>). \<open>except Exception: pass\<close> turns a raise into falling off the
  end.\<close>

definition except_pass :: "(exn + 'a option) \<times> world \<Rightarrow> 'a option \<times> world" where
  "except_pass r = (case r of (Inl e, w) \<Rightarrow> (None, w) | (Inr v, w) \<Rightarrow> (v, w))"

definition nonblank_lines :: "string \<Rightarrow> string list" where
  "nonblank_lines out = map strip (filter (\<lambda>line. strip line \<noteq> []) (splitlines out))"

definition filter_keywords :: string where
  "filter_keywords = ''Elgato|Blackmagic|AVerMedia|Hauppauge|Capture|HDMI|USB|Camera|Cam''"

definition ps_cmd :: string where
  "ps_cmd = ''Get-CimInstance Win32_PnPEntity | Where-Object -Property Name -Match '' @ [CHR 0x27]
            @ filter_keywords @ [CHR 0x27] @ '' | Select-Object -ExpandProperty Name''"

definition ps_cmd_camera :: string where
  "ps_cmd_camera = ''Get-PnpDevice -Class Camera | Select-Object -ExpandProperty FriendlyName''"

definition ps_cmd_all :: string where
  "ps_cmd_all = ''Get-CimInstance Win32_PnPEntity | Select-Object -ExpandProperty Name''"

definition pnp_keywords :: "string list" where
  "pnp_keywords = [''elgato'', ''blackmagic'', ''avermedia'', ''hauppauge'', ''capture'', ''hdmi'',
               ''usb'', ''camera'', ''cam'']"

text \<open>The first two \<open>try\<close> blocks differ in the command only.\<close>

definition pnp_block :: "env \<Rightarrow> string \<Rightarrow> world \<Rightarrow> (exn + string list option) \<times> world" where
  "pnp_block env command w =
     (case run_powershell env command w of
        (Inl e, w') \<Rightarrow> (Inl e, w')
      | (Inr out, w') \<Rightarrow>
          if out \<noteq> [] then (Inr (Some (nonblank_lines out)), w') else (Inr None, w'))"

definition pnp_block_all :: "env \<Rightarrow> world \<Rightarrow> (exn + string list option) \<times> world" where
  "pnp_block_all env w =
     (case run_powershell env ps_cmd_all w of
        (Inl e, w') \<Rightarrow> (Inl e, w')
      | (Inr out, w') \<Rightarrow>
          if out \<noteq> []
          then (let all_names = nonblank_lines out
                in (Inr (Some (filter (\<lambda>name. list_ex (\<lambda>k. str_in k (lower name)) pnp_keywords)
                                 all_names)), w'))
          else (Inr None, w'))"

text \<open>Every \<open>return\<close> of the three blocks is \<open>return list(dict.fromkeys(candidates))\<close>.\<close>

definition find_capture_devices_pnp :: "env \<Rightarrow> world \<Rightarrow> (exn + string list) \<times> world" where
  "find_capture_devices_pnp env w =
     (case except_pass (pnp_block env ps_cmd w) of
        (Some candidates, w1) \<Rightarrow> (Inr (dict_fromkeys candidates), w1)
      | (None, w1) \<Rightarrow>
     (case except_pass (pnp_block env ps_cmd_camera w1) of
        (Some candidates, w2) \<Rightarrow> (Inr (dict_fromkeys candidates), w2)
      | (None, w2) \<Rightarrow>
     (case except_pass (pnp_block_all env w2) of
        (Some candidates, w3) \<Rightarrow> (Inr (dict_fromkeys candidates), w3)
      | (None, w3) \<Rightarrow> (Inr [], w3))))"

definition quote :: char where
  "quote = CHR 0x22"

text \<open>One round of \<open>for line in text.splitlines()\<close>, from \<open>devices\<close> to \<open>devices\<close>.\<close>

definition ffmpeg_line :: "string \<Rightarrow> string list \<Rightarrow> string list" where
  "ffmpeg_line raw devices =
     (let line = strip raw
      in if line = [] then devices
         else if startswith line [quote] \<and> endswith line [quote]
              then devices @ [strip_chars (\<lambda>c. c = quote) line]
         else if quote \<in> set line
              then (let parts = split_char quote line
                    in if length parts \<ge> 3
                       then (let name = strip (parts ! 1)
                             in if name \<noteq> [] then devices @ [name] else devices)
                       else devices)
         else devices)"

definition ffmpeg_cmds :: "string list list" where
  "ffmpeg_cmds = [[''ffmpeg'', ''-list_devices'', ''true'', ''-f'', ''dshow'', ''-i'', ''dummy'']]"

text \<open>\<open>for cmd in cmds\<close>: the body of the \<open>try\<close>; on an exception the loop goes on to
  the next command with \<open>devices\<close> as it was (the only call that can raise comes before
  the first \<open>append\<close>).\<close>

fun ffmpeg_loop :: "env \<Rightarrow> string list list \<Rightarrow> string list \<Rightarrow> world \<Rightarrow> string list \<times> world" where
  "ffmpeg_loop env [] devices w = (devices, w)"
| "ffmpeg_loop env (cmd # cmds) devices w =
     (case run_cmd env cmd w of
        (Inl e, w') \<Rightarrow> ffmpeg_loop env cmds devices w'
      | (Inr (rc, out, err), w') \<Rightarrow>
          (let text = out @ [CHR 0x0A] @ err
           in ffmpeg_loop env cmds (fold ffmpeg_line (splitlines text) devices) w'))"

definition find_capture_devices_ffmpeg :: "env \<Rightarrow> world \<Rightarrow> (exn + string list) \<times> world" where
  "find_capture_devices_ffmpeg env w =
     (case ffmpeg_loop env ffmpeg_cmds [] w of
        (devices, w') \<Rightarrow> (Inr (dict_fromkeys devices), w'))"

definition find_capture_devices :: "env \<Rightarrow> world \<Rightarrow> (exn + string list) \<times> world" where
  "find_capture_devices env w =
     (case find_capture_devices_pnp env w of
        (Inl e, w') \<Rightarrow> (Inl e, w')
      | (Inr pnp, w') \<Rightarrow>
          if pnp \<noteq> [] then (Inr pnp, w') else find_capture_devices_ffmpeg env w')"

section \<open>Device selection (capture.py)\<close>

text \<open>\<open>path or config_path()\<close>: the default replaces both \<open>None\<close> and the empty
  string.

  \<open>load_config\<close>: \<open>open\<close> raises for a missing or unreadable file and
  \<open>json.load\<close> for invalid JSON; every exception gives the empty dictionary. The
  result of a successful parse is returned whatever its type.\<close>

definition path_or_default :: "env \<Rightarrow> string option \<Rightarrow> string" where
  "path_or_default env path =
     (case path of None \<Rightarrow> config_path env | Some q \<Rightarrow> if q = [] then config_path env else q)"

definition load_config :: "env \<Rightarrow> string option \<Rightarrow> world \<Rightarrow> json" where
  "load_config env path w =
     (let p = path_or_default env path
      in case files w p of
           None \<Rightarrow> JObj []
         | Some content \<Rightarrow>
             if \<not> readable env p then JObj []
             else (case loads env content of None \<Rightarrow> JObj [] | Some v \<Rightarrow> v))"

text \<open>\<open>save_config\<close>: \<open>open(p, 'w')\<close> raises when the file cannot be opened for
  writing, and nothing catches it.\<close>

definition save_config :: "env \<Rightarrow> json \<Rightarrow> string option \<Rightarrow> world \<Rightarrow> (exn + unit) \<times> world" where
  "save_config env cfg path w =
     (let p = path_or_default env path
      in if writable env p
         then (let s = dumps env False cfg
               in (Inr (), w\<lparr>files := (files w)(p \<mapsto> s), log := log w @ [Wrote p s]\<rparr>))
         else (Inl OSError, w))"

text \<open>The result is Python's \<open>None\<close> (\<open>None\<close>) or a value (\<open>Some v\<close>): the pinned
  \<open>device\<close> entry as it stands in the file, or the chosen name.\<close>

definition ensure_default_capture_device ::
  "env \<Rightarrow> bool \<Rightarrow> world \<Rightarrow> (exn + json option) \<times> world" where
  "ensure_default_capture_device env dry_run w =
     (case load_config env None w of
        JObj cfg \<Rightarrow>
          if map_of cfg ''source'' \<noteq> Some (JStr ''capture'') then (Inr None, w)
          else if (case map_of cfg ''device'' of None \<Rightarrow> False | Some v \<Rightarrow> truthy v)
               then (Inr (map_of cfg ''device''), w)
          else (case find_capture_devices env w of
                  (Inl e, w1) \<Rightarrow> (Inl e, w1)
                | (Inr devices, w1) \<Rightarrow>
                    (case choose_best_device devices of
                       None \<Rightarrow> (Inr None, w1)
                     | Some best \<Rightarrow>
                         if best \<noteq> []
                         then (let cfg' = AList.update ''device'' (JStr best) cfg
                               in if \<not> dry_run
                                  then (case save_config env (JObj cfg') None w1 of
                                          (Inl e, w2) \<Rightarrow> (Inl e, w2)
                                        | (Inr u, w2) \<Rightarrow> (Inr (Some (JStr best)), w2))
                                  else (Inr (Some (JStr best)), w1))
                         else (Inr None, w1)))
      | _ \<Rightarrow> (Inr None, w))"

section \<open>Configuration bootstrap (main.py)\<close>

definition DEFAULT_CONFIG :: json where
  "DEFAULT_CONFIG =
     JObj [(''window'', JObj [(''title'', JStr ''DBII Replay''), (''width'', JNum 800),
                             (''height'', JNum 600)])]"







section \<open>Frame acquisition (window.py)\<close>

text \<open>
  \<open>VideoCaptureThread.run\<close> executes in its own thread while the host may call
  \<open>stop\<close>. Both are modelled as step functions on one shared state, interleaved by a
  schedule that names, for every step, the thread that takes it. A step of \<open>run\<close> is one
  statement that touches the shared fields or the device: an open, the loop test, a read,
  the emission of \<open>frameReady\<close>, a sleep, the \<open>finally\<close> block.

  The capture backend is a parameter. Opening returns a handle that is opened or not, or
  raises; \<open>read\<close> on a handle that is not open (never opened, or released) returns
  \<open>(False, None)\<close>, on an open one the next result of the device: a frame, no frame,
  or an exception. Converting a frame that was read is taken to succeed.
\<close>

datatype open_result = OpenRaises | Handle bool

datatype read_result = ReadRaises | NoFrame | Frame nat

record cam =
  cv2_present :: bool
  open_named :: "string \<Rightarrow> open_result"
  open_index :: "nat \<Rightarrow> open_result"
  frames :: "nat \<Rightarrow> read_result"

datatype actor = Thread | Host

datatype pc = Start | Fallback | Check | Read | Emit nat | Sleep | Finally | Done

datatype hpc = H_Idle | H_Release | H_Wait | H_Done

datatype cam_event = Emitted nat | Released actor

text \<open>\<open>cap\<close> is \<open>self._cap\<close>: \<open>None\<close>, or a handle with its \<open>isOpened()\<close>;
  \<open>running\<close> is \<open>self._running\<close>; \<open>raised\<close> says that \<open>run\<close> was left by an
  exception; \<open>nreads\<close> counts the reads of an open handle.\<close>

record vthread =
  device_name :: string
  running :: bool
  cap :: "bool option"
  pc :: pc
  raised :: bool
  nreads :: nat
  trace :: "cam_event list"
  hpc :: hpc

definition init :: "string \<Rightarrow> vthread" where
  "init name = \<lparr>device_name = name, running = True, cap = None, pc = Start, raised = False,
                nreads = 0, trace = [], hpc = H_Idle\<rparr>"

definition run_step :: "cam \<Rightarrow> vthread \<Rightarrow> vthread" where
  "run_step cam s =
     (case pc s of
        Start \<Rightarrow>
          if \<not> cv2_present cam then s\<lparr>pc := Done\<rparr>
          else (case open_named cam (''dshow:video='' @ device_name s) of
                  OpenRaises \<Rightarrow> s\<lparr>pc := Finally, raised := True\<rparr>
                | Handle opened \<Rightarrow>
                    s\<lparr>cap := Some opened, pc := (if \<not> opened then Fallback else Check)\<rparr>)
      | Fallback \<Rightarrow>
          (case open_index cam 0 of
             OpenRaises \<Rightarrow> s\<lparr>pc := Finally\<rparr>
           | Handle opened \<Rightarrow> s\<lparr>cap := Some opened, pc := Check\<rparr>)
      | Check \<Rightarrow>
          if running s \<and> cap s \<noteq> None then s\<lparr>pc := Read\<rparr> else s\<lparr>pc := Finally\<rparr>
      | Read \<Rightarrow>
          (case cap s of
             None \<Rightarrow> s\<lparr>pc := Finally, raised := True\<rparr>
           | Some opened \<Rightarrow>
               if \<not> opened then s\<lparr>pc := Sleep\<rparr>
               else (case frames cam (nreads s) of
                       ReadRaises \<Rightarrow> s\<lparr>pc := Finally, raised := True, nreads := nreads s + 1\<rparr>
                     | NoFrame \<Rightarrow> s\<lparr>pc := Sleep, nreads := nreads s + 1\<rparr>
                     | Frame f \<Rightarrow> s\<lparr>pc := Emit f, nreads := nreads s + 1\<rparr>))
      | Emit f \<Rightarrow> s\<lparr>pc := Sleep, trace := trace s @ [Emitted f]\<rparr>
      | Sleep \<Rightarrow> s\<lparr>pc := Check\<rparr>
      | Finally \<Rightarrow>
          (case cap s of
             None \<Rightarrow> s\<lparr>pc := Done\<rparr>
           | Some opened \<Rightarrow>
               s\<lparr>pc := Done, cap := Some False, trace := trace s @ [Released Thread]\<rparr>)
      | Done \<Rightarrow> s)"

text \<open>\<open>stop\<close>: the flag, then the release under \<open>if self._cap is not None\<close>, then
  \<open>wait(1000)\<close>, which changes nothing in the shared state.\<close>

definition stop_step :: "vthread \<Rightarrow> vthread" where
  "stop_step s =
     (case hpc s of
        H_Idle \<Rightarrow> s\<lparr>running := False, hpc := H_Release\<rparr>
      | H_Release \<Rightarrow>
          (case cap s of
             None \<Rightarrow> s\<lparr>hpc := H_Wait\<rparr>
           | Some opened \<Rightarrow>
               s\<lparr>hpc := H_Wait, cap := Some False, trace := trace s @ [Released Host]\<rparr>)
      | H_Wait \<Rightarrow> s\<lparr>hpc := H_Done\<rparr>
      | H_Done \<Rightarrow> s)"

definition sys_step :: "cam \<Rightarrow> actor \<Rightarrow> vthread \<Rightarrow> vthread" where
  "sys_step cam a s = (case a of Thread \<Rightarrow> run_step cam s | Host \<Rightarrow> stop_step s)"

definition exec :: "cam \<Rightarrow> actor list \<Rightarrow> vthread \<Rightarrow> vthread" where
  "exec cam sched s = fold (sys_step cam) sched s"

definition emitted :: "vthread \<Rightarrow> nat list" where
  "emitted s = concat (map (\<lambda>e. case e of Emitted f \<Rightarrow> [f] | Released a \<Rightarrow> []) (trace s))"

definition releases :: "vthread \<Rightarrow> nat" where
  "releases s = length (filter (\<lambda>e. case e of Emitted f \<Rightarrow> False | Released a \<Rightarrow> True) (trace s))"

definition streaming :: "vthread \<Rightarrow> bool" where
  "streaming s = (cap s \<noteq> None \<and> (case pc s of Check \<Rightarrow> True | Read \<Rightarrow> True | Emit f \<Rightarrow> True
                                   | Sleep \<Rightarrow> True | _ \<Rightarrow> False))"


text \<open>The calls of \<open>release\<close> made by one of the two threads.\<close>

definition released_by :: "actor \<Rightarrow> vthread \<Rightarrow> nat" where
  "released_by a s = length (filter (\<lambda>e. e = Released a) (trace s))"

text \<open>The loop stands at an iteration boundary (the test of the \<open>while\<close>) or is
  past the loop.\<close>

definition at_boundary :: "vthread \<Rightarrow> bool" where
  "at_boundary s = (pc s = Check \<or> pc s = Finally \<or> pc s = Done)"

text \<open>An upper bound on the steps \<open>run\<close> still takes once \<open>running\<close> is false.\<close>

definition steps_left :: "vthread \<Rightarrow> nat" where
  "steps_left s =
     (case pc s of Start \<Rightarrow> 4 | Fallback \<Rightarrow> 3 | Check \<Rightarrow> 2 | Read \<Rightarrow> 5 | Emit f \<Rightarrow> 4
      | Sleep \<Rightarrow> 3 | Finally \<Rightarrow> 1 | Done \<Rightarrow> 0)"

definition thread_steps :: "actor list \<Rightarrow> nat" where
  "thread_steps sched = length (filter (\<lambda>a. a = Thread) sched)"

text \<open>Invariants of the interleaved runs. \<open>spinning\<close>: the loop goes round on a
  handle that is not open, with nothing emitted. \<open>pending\<close>: the frames that may still
  be emitted before the next loop test. \<open>in_loop\<close>: the opens are over. \<open>fresh\<close>:
  who has not reached its \<open>release\<close> has not released. \<open>counted\<close>: with a handle
  in \<open>self._cap\<close>, each thread has released once exactly when it is past its
  \<open>release\<close>.\<close>

definition spinning :: "vthread \<Rightarrow> bool" where
  "spinning s = (running s \<and> trace s = [] \<and> \<not> raised s \<and>
     ((pc s = Start \<and> cap s = None) \<or> (pc s = Fallback \<and> cap s = Some False)
      \<or> ((pc s = Check \<or> pc s = Read \<or> pc s = Sleep) \<and> cap s = Some False)))"

definition pending :: "vthread \<Rightarrow> nat" where
  "pending s = (case pc s of Read \<Rightarrow> 1 | Emit f \<Rightarrow> 1 | _ \<Rightarrow> 0)"

definition in_loop :: "vthread \<Rightarrow> bool" where
  "in_loop s = (pc s \<noteq> Start \<and> pc s \<noteq> Fallback)"

definition fresh :: "vthread \<Rightarrow> bool" where
  "fresh s = ((pc s \<noteq> Done \<longrightarrow> released_by Thread s = 0)
              \<and> (hpc s = H_Idle \<longrightarrow> released_by Host s = 0))"

definition counted :: "vthread \<Rightarrow> bool" where
  "counted s = (cap s \<noteq> None \<and> in_loop s
     \<and> released_by Thread s = (if pc s = Done then 1 else 0)
     \<and> released_by Host s = (if hpc s = H_Wait \<or> hpc s = H_Done then 1 else 0))"

section \<open>The specification's wording, for comparison with the code\<close>

text \<open>The score as the specification words it: the weights of the table entries whose
  keyword occurs in the lower-cased name, added up, plus 2 for a lower-cased name of more
  than 20 characters.\<close>

definition score_by_table :: "string \<Rightarrow> int" where
  "score_by_table name =
     (\<Sum>(k, w) \<leftarrow> weights. if sublist k (lower name) then w else 0)
     + (if length (lower name) > 20 then 2 else 0)"

text \<open>The specification's tie-break: the first candidate, in the order given, whose score
  no candidate exceeds.\<close>

definition first_with_max_score :: "string list \<Rightarrow> string option" where
  "first_with_max_score devices =
     find (\<lambda>d. list_all (\<lambda>e. score_device_name e \<le> score_device_name d) devices) devices"

text \<open>First-seen order: the entries at the positions where a name occurs for the first
  time, in the order of these positions.\<close>

definition first_seen :: "'a list \<Rightarrow> 'a list" where
  "first_seen xs = map (\<lambda>i. xs ! i) (filter (\<lambda>i. xs ! i \<notin> set (take i xs)) [0..<length xs])"


text \<open>The same with a set of names taken as seen before the list starts.\<close>

definition seen_from :: "'a set \<Rightarrow> 'a list \<Rightarrow> 'a list" where
  "seen_from S xs = map (\<lambda>i. xs ! i) (filter (\<lambda>i. xs ! i \<notin> S \<union> set (take i xs)) [0..<length xs])"

text \<open>The lists from which the enumerator's results are built, before
  \<open>dict.fromkeys\<close>: \<open>candidates\<close> at the \<open>return\<close> that
  \<open>find_capture_devices_pnp\<close> takes, \<open>devices\<close> at the end of the loop of
  \<open>find_capture_devices_ffmpeg\<close>, and for \<open>find_capture_devices\<close> the one of the
  two that its result comes from.\<close>

definition pnp_candidates :: "env \<Rightarrow> world \<Rightarrow> string list" where
  "pnp_candidates env w =
     (case except_pass (pnp_block env ps_cmd w) of
        (Some candidates, w1) \<Rightarrow> candidates
      | (None, w1) \<Rightarrow>
     (case except_pass (pnp_block env ps_cmd_camera w1) of
        (Some candidates, w2) \<Rightarrow> candidates
      | (None, w2) \<Rightarrow>
     (case except_pass (pnp_block_all env w2) of
        (Some candidates, w3) \<Rightarrow> candidates
      | (None, w3) \<Rightarrow> [])))"

definition ffmpeg_devices :: "env \<Rightarrow> world \<Rightarrow> string list" where
  "ffmpeg_devices env w = fst (ffmpeg_loop env ffmpeg_cmds [] w)"

definition raw_names :: "env \<Rightarrow> world \<Rightarrow> string list" where
  "raw_names env w =
     (case find_capture_devices_pnp env w of
        (Inl e, w') \<Rightarrow> []
      | (Inr pnp, w') \<Rightarrow> if pnp \<noteq> [] then pnp_candidates env w else ffmpeg_devices env w')"

text \<open>What each of the four strategies contributes, as a function of what its command
  does: nothing when the command raises, otherwise the names read from its output. The
  return code takes no part.\<close>

definition ffmpeg_argv :: "string list" where
  "ffmpeg_argv = [''ffmpeg'', ''-list_devices'', ''true'', ''-f'', ''dshow'', ''-i'', ''dummy'']"

definition strategy_results :: "env \<Rightarrow> string list list" where
  "strategy_results env =
     [case procs env (powershell_argv ps_cmd) of
        Raises e \<Rightarrow> []
      | Completed rc out err \<Rightarrow> dict_fromkeys (nonblank_lines (strip out)),
      case procs env (powershell_argv ps_cmd_camera) of
        Raises e \<Rightarrow> []
      | Completed rc out err \<Rightarrow> dict_fromkeys (nonblank_lines (strip out)),
      case procs env (powershell_argv ps_cmd_all) of
        Raises e \<Rightarrow> []
      | Completed rc out err \<Rightarrow>
          dict_fromkeys (filter (\<lambda>name. list_ex (\<lambda>k. str_in k (lower name)) pnp_keywords)
                           (nonblank_lines (strip out))),
      case procs env ffmpeg_argv of
        Raises e \<Rightarrow> []
      | Completed rc out err \<Rightarrow>
          dict_fromkeys (fold ffmpeg_line (splitlines (strip out @ [CHR 0x0A] @ strip err)) [])]"

fun first_nonempty :: "'a list list \<Rightarrow> 'a list" where
  "first_nonempty [] = []"
| "first_nonempty (r # rs) = (if r \<noteq> [] then r else first_nonempty rs)"

text \<open>A failing command in the specification's sense: it cannot be launched or times
  out (it raises), it exits with a non-zero code, or it prints nothing.\<close>

definition command_fails :: "proc_result \<Rightarrow> bool" where
  "command_fails r =
     (case r of Raises e \<Rightarrow> True | Completed rc out err \<Rightarrow> rc \<noteq> 0 \<or> strip out = [])"

section \<open>Concrete environments\<close>

text \<open>A small environment on which the model is run: a parser that knows four file
  contents, a printer with two outputs, and every path readable, writable and renamable.
  The behaviour of the external commands is left as the parameter.\<close>

definition fixture_loads :: "string \<Rightarrow> json option" where
  "fixture_loads s =
     map_of [(''pinned'', JObj [(''source'', JStr ''capture''), (''device'', JStr ''Elgato HD60'')]),
             (''unpinned'', JObj [(''source'', JStr ''capture'')]),
             (''file'', JObj [(''source'', JStr ''file'')]),
             (''default'', DEFAULT_CONFIG)] s"

definition fixture_dumps :: "bool \<Rightarrow> json \<Rightarrow> string" where
  "fixture_dumps ensure_ascii v = (if v = DEFAULT_CONFIG then ''default'' else ''other'')"

definition fixture_env :: "(string list \<Rightarrow> proc_result) \<Rightarrow> env" where
  "fixture_env p =
     \<lparr>loads = fixture_loads, dumps = fixture_dumps, procs = p, config_path = ''config.json'',
      readable = (\<lambda>q. True), writable = (\<lambda>q. True), renamable = (\<lambda>q r. True)\<rparr>"


definition no_commands :: "string list \<Rightarrow> proc_result" where
  "no_commands argv = Raises FileNotFoundError"

definition fixture_world :: "string \<Rightarrow> world" where
  "fixture_world content = \<lparr>files = [''config.json'' \<mapsto> content], log = []\<rparr>"

text \<open>Commands of which the first query prints a name and exits with code 1, and no
  other program can be launched.\<close>

definition exit_one_procs :: "string list \<Rightarrow> proc_result" where
  "exit_one_procs argv =
     (if argv = powershell_argv ps_cmd then Completed 1 ''Foo'' [] else Raises FileNotFoundError)"

text \<open>Commands of which only the camera query answers, with a repeated name.\<close>

definition camera_procs :: "string list \<Rightarrow> proc_result" where
  "camera_procs argv =
     (if argv = powershell_argv ps_cmd_camera
      then Completed 0 (''Cam B'' @ [CHR 0x0D, CHR 0x0A] @ ''Cam A'' @ [CHR 0x0A] @ ''Cam B'') []
      else Raises TimeoutExpired)"

text \<open>A backend on which neither open succeeds and neither raises, and one on which
  the named device opens and delivers a frame at every read.\<close>

definition dead_cam :: cam where
  "dead_cam = \<lparr>cv2_present = True, open_named = (\<lambda>n. Handle False),
               open_index = (\<lambda>i. Handle False), frames = (\<lambda>k. NoFrame)\<rparr>"

definition live_cam :: cam where
  "live_cam = \<lparr>cv2_present = True, open_named = (\<lambda>n. Handle True),
               open_index = (\<lambda>i. Handle False), frames = (\<lambda>k. Frame k)\<rparr>"

text \<open>A schedule that lets \<open>run\<close> open the device and read its first frame, and
  one in which the three steps of \<open>stop\<close> alternate with steps of \<open>run\<close>.\<close>

definition before_stop :: "actor list" where
  "before_stop = [Thread, Thread, Thread, Thread]"

definition after_stop :: "actor list" where
  "after_stop = [Host, Thread, Host, Thread, Thread, Thread, Thread]"

section \<open>Scorer: the score is the table sum\<close>

lemma str_in_sublist: "str_in k n = sublist k n"
  by (induction n) (auto simp: sublist_Cons_right)

lemma score_loop_sum:
  "score_loop n ws acc = acc + (\<Sum>(k, w) \<leftarrow> ws. if str_in k n then w else 0)"
  by (induction ws arbitrary: acc) auto

lemma weights_nonneg: "\<forall>(k, w) \<in> set weights. 0 \<le> w"
  by (simp add: weights_def)

lemma score_loop_nonneg: "0 \<le> score_loop n weights 0"
proof -
  have "0 \<le> (\<Sum>(k, w) \<leftarrow> weights. if str_in k n then w else (0::int))"
    using weights_nonneg by (intro sum_list_nonneg) auto
  then show ?thesis by (simp add: score_loop_sum)
qed

text \<open>
  C2. For every name, \<open>score_device_name\<close> is the sum of the weights of the table
  keywords that are substrings of the lower-cased name, plus 2 when the lower-cased name
  has more than 20 characters. It is a function of the name alone, defined on every
  string, never negative, 0 on the empty string, and 50 on both \<open>USB Video Device\<close> and
  \<open>Elgato HD60\<close>.
\<close>

theorem score_device_name_table:
  "score_device_name name = score_by_table name
   \<and> 0 \<le> score_device_name name
   \<and> score_device_name [] = 0
   \<and> score_device_name ''USB Video Device'' = 50
   \<and> score_device_name ''Elgato HD60'' = 50"
proof -
  have 1: "score_device_name name = score_by_table name"
    by (simp add: score_device_name_def score_by_table_def Let_def score_loop_sum str_in_sublist)
  have 2: "0 \<le> score_device_name name"
    using score_loop_nonneg [of "lower name"] by (simp add: score_device_name_def Let_def)
  have 3: "score_device_name [] = 0" by code_simp
  have 4: "score_device_name ''USB Video Device'' = 50" by code_simp
  have 5: "score_device_name ''Elgato HD60'' = 50" by code_simp
  from 1 2 3 4 5 show ?thesis by blast
qed

section \<open>Scorer: which candidate wins\<close>

lemma sorted_last_ge: "sorted ys \<Longrightarrow> y \<in> set ys \<Longrightarrow> y \<le> last ys"
  by (induction ys) auto

lemma hd_sorted_reverse:
  assumes "xs \<noteq> []" shows "hd (sorted_reverse xs) = Max (set xs)"
proof -
  let ?ys = "sort (rev xs)"
  have ne: "?ys \<noteq> []" using assms by (metis length_0_conv length_rev length_sort)
  have "hd (rev ?ys) = last ?ys" using ne by (simp add: hd_rev)
  also have "last ?ys = Max (set ?ys)"
  proof (rule sym, rule Max_eqI)
    show "finite (set ?ys)" by simp
    show "\<And>y. y \<in> set ?ys \<Longrightarrow> y \<le> last ?ys"
      by (rule sorted_last_ge) (rule sorted_sort)
    show "last ?ys \<in> set ?ys" using ne by (rule last_in_set)
  qed
  finally show ?thesis by (simp add: sorted_reverse_def)
qed

lemma choose_best_device_Max:
  assumes "devices \<noteq> []"
  shows "choose_best_device devices
         = Some (snd (Max (set (map (\<lambda>d. (score_device_name d, d)) devices))))"
  using assms by (simp add: choose_best_device_def Let_def hd_sorted_reverse del: set_map)

text \<open>
  C1, as the code has it. \<open>choose_best_device\<close> returns none for the empty list. For a
  non-empty list it returns a candidate of the list whose score no candidate exceeds;
  among the candidates with that score it returns the one whose name is greatest in
  Python's string order, wherever it stands in the list: the sort compares the tuples
  \<open>(score, name)\<close>, so equal scores are decided by the names.
\<close>

theorem choose_best_device_greatest:
  "choose_best_device [] = None
   \<and> (devices \<noteq> [] \<longrightarrow>
        (\<exists>b \<in> set devices. choose_best_device devices = Some b
           \<and> (\<forall>d \<in> set devices. score_device_name d \<le> score_device_name b)
           \<and> (\<forall>d \<in> set devices. score_device_name d = score_device_name b \<longrightarrow> d \<le> b)))"
proof (intro conjI impI)
  show "choose_best_device [] = None" by (simp add: choose_best_device_def)
next
  assume ne: "devices \<noteq> []"
  let ?S = "set (map (\<lambda>d. (score_device_name d, d)) devices)"
  let ?m = "Max ?S"
  have fin: "finite ?S" by simp
  have neS: "?S \<noteq> {}" using ne by simp
  have mem: "?m \<in> ?S" using fin neS by (rule Max_in)
  then obtain b where b: "b \<in> set devices" "?m = (score_device_name b, b)" by auto
  have ge: "\<And>d. d \<in> set devices \<Longrightarrow> (score_device_name d, d) \<le> (score_device_name b, b)"
  proof -
    fix d assume "d \<in> set devices"
    then have "(score_device_name d, d) \<in> ?S" by simp
    then have "(score_device_name d, d) \<le> ?m" using fin by (rule Max_ge[rotated])
    then show "(score_device_name d, d) \<le> (score_device_name b, b)" using b(2) by simp
  qed
  have res: "choose_best_device devices = Some b"
    using choose_best_device_Max [OF ne] b(2) by simp
  have 1: "\<forall>d \<in> set devices. score_device_name d \<le> score_device_name b"
  proof
    fix d assume "d \<in> set devices"
    from ge [OF this] show "score_device_name d \<le> score_device_name b"
      by (auto simp: less_eq_prod_def)
  qed
  have 2: "\<forall>d \<in> set devices. score_device_name d = score_device_name b \<longrightarrow> d \<le> b"
  proof (intro ballI impI)
    fix d assume "d \<in> set devices" and eq: "score_device_name d = score_device_name b"
    from ge [OF this(1)] eq show "d \<le> b"
      by (auto simp: less_eq_prod_def)
  qed
  from b(1) res 1 2
  show "\<exists>b \<in> set devices. choose_best_device devices = Some b
           \<and> (\<forall>d \<in> set devices. score_device_name d \<le> score_device_name b)
           \<and> (\<forall>d \<in> set devices. score_device_name d = score_device_name b \<longrightarrow> d \<le> b)"
    by blast
qed

theorem choose_best_device_greatest_witness:
  "[''Elgato HD60'', ''USB Video Device''] \<noteq> []
   \<and> choose_best_device [''Elgato HD60'', ''USB Video Device''] = Some ''USB Video Device''
   \<and> score_device_name ''Elgato HD60'' \<le> score_device_name ''USB Video Device''
   \<and> ''Elgato HD60'' \<le> ''USB Video Device''"
proof -
  have c: "choose_best_device [''Elgato HD60'', ''USB Video Device''] = Some ''USB Video Device''"
    by code_simp
  have s: "score_device_name ''Elgato HD60'' = score_device_name ''USB Video Device''"
    by code_simp
  from choose_best_device_greatest [of "[''Elgato HD60'', ''USB Video Device'']"] c s
  show ?thesis by auto
qed

text \<open>Both names score 50 and \<open>Elgato HD60\<close> is listed first, yet the code returns
  \<open>USB Video Device\<close>, the greater name.\<close>

theorem choose_best_device_first_counterexample:
  "first_with_max_score [''Elgato HD60'', ''USB Video Device''] = Some ''Elgato HD60''
   \<and> choose_best_device [''Elgato HD60'', ''USB Video Device''] = Some ''USB Video Device''"
  by code_simp


section \<open>Device selection: the short circuits\<close>

lemma fixture_pinned_load:
  "load_config (fixture_env no_commands) None (fixture_world ''pinned'')
   = JObj [(''source'', JStr ''capture''), (''device'', JStr ''Elgato HD60'')]"
  by (simp add: load_config_def path_or_default_def fixture_env_def fixture_world_def
      fixture_loads_def)

lemma fixture_file_load:
  "load_config (fixture_env no_commands) None (fixture_world ''file'')
   = JObj [(''source'', JStr ''file'')]"
  by (simp add: load_config_def path_or_default_def fixture_env_def fixture_world_def
      fixture_loads_def)

text \<open>
  C3. When the loaded configuration has \<open>source\<close> equal to \<open>capture\<close> and a non-empty
  string under \<open>device\<close>, \<open>ensure_default_capture_device\<close> returns that string and
  leaves the world as it found it: no file is written and no command is spawned (the log
  is unchanged, for every behaviour of the commands and for either value of
  \<open>dry_run\<close>), so no name is enumerated or scored. A second call on the resulting world
  returns the same value and the same world.
\<close>

theorem ensure_default_capture_device_pinned:
  assumes "load_config env None w = JObj cfg"
    and "map_of cfg ''source'' = Some (JStr ''capture'')"
    and "map_of cfg ''device'' = Some (JStr d)"
    and "d \<noteq> []"
  shows "ensure_default_capture_device env dry_run w = (Inr (Some (JStr d)), w)
         \<and> ensure_default_capture_device env dry_run
              (snd (ensure_default_capture_device env dry_run w)) = (Inr (Some (JStr d)), w)"
proof -
  have 1: "ensure_default_capture_device env dry_run w = (Inr (Some (JStr d)), w)"
    using assms by (simp add: ensure_default_capture_device_def)
  then show ?thesis by simp
qed

theorem ensure_default_capture_device_pinned_witness:
  "ensure_default_capture_device (fixture_env no_commands) False (fixture_world ''pinned'')
     = (Inr (Some (JStr ''Elgato HD60'')), fixture_world ''pinned'')
   \<and> ensure_default_capture_device (fixture_env no_commands) False
        (snd (ensure_default_capture_device (fixture_env no_commands) False
               (fixture_world ''pinned'')))
     = (Inr (Some (JStr ''Elgato HD60'')), fixture_world ''pinned'')"
  by (rule ensure_default_capture_device_pinned [OF fixture_pinned_load]) simp_all

text \<open>
  C4. When the loaded configuration does not have the string \<open>capture\<close> under
  \<open>source\<close> (the key is absent, holds another value, or the file does not hold an
  object), \<open>ensure_default_capture_device\<close> returns none and the world is unchanged:
  no file is written, renamed or created, and nothing is spawned.
\<close>

theorem ensure_default_capture_device_other_source:
  assumes "\<forall>cfg. load_config env None w = JObj cfg
             \<longrightarrow> map_of cfg ''source'' \<noteq> Some (JStr ''capture'')"
  shows "ensure_default_capture_device env dry_run w = (Inr None, w)"
  using assms by (simp add: ensure_default_capture_device_def split: json.splits)

theorem ensure_default_capture_device_other_source_witness:
  "ensure_default_capture_device (fixture_env no_commands) False (fixture_world ''file'')
     = (Inr None, fixture_world ''file'')"
  by (rule ensure_default_capture_device_other_source) (simp add: fixture_file_load)

text \<open>
  C10. \<open>load_config\<close> returns the empty dictionary when the file is missing, cannot
  be read, or does not parse. It is a function from the environment and the world to a
  value: it has no exceptional result and produces no new world, so it raises nothing and
  makes no backup. On such a file \<open>ensure_default_capture_device\<close> returns none and
  leaves the world, the file's content included, as it was.
\<close>

theorem load_config_failure_empty:
  assumes "files w (path_or_default env path) = None
           \<or> \<not> readable env (path_or_default env path)
           \<or> (\<exists>c. files w (path_or_default env path) = Some c \<and> loads env c = None)"
  shows "load_config env path w = JObj []
         \<and> (path = None \<longrightarrow> ensure_default_capture_device env dry_run w = (Inr None, w))"
proof -
  have 1: "load_config env path w = JObj []"
    using assms by (auto simp: load_config_def Let_def split: option.splits)
  show ?thesis
  proof (intro conjI impI)
    show "load_config env path w = JObj []" by (rule 1)
  next
    assume "path = None"
    with 1 have "load_config env None w = JObj []" by simp
    then show "ensure_default_capture_device env dry_run w = (Inr None, w)"
      by (simp add: ensure_default_capture_device_def)
  qed
qed

theorem load_config_failure_empty_witness:
  "load_config (fixture_env no_commands) None (fixture_world ''{{{'') = JObj []
   \<and> ensure_default_capture_device (fixture_env no_commands) False (fixture_world ''{{{'')
       = (Inr None, fixture_world ''{{{'')"
proof -
  have "files (fixture_world ''{{{'') (path_or_default (fixture_env no_commands) None) = Some ''{{{''
        \<and> loads (fixture_env no_commands) ''{{{'' = None"
    by (simp add: path_or_default_def fixture_env_def fixture_world_def fixture_loads_def)
  then show ?thesis
    using load_config_failure_empty [of "fixture_world ''{{{''" "fixture_env no_commands" None False]
    by blast
qed

section \<open>Configuration bootstrap: a corrupt file is set aside\<close>






section \<open>Enumerator: deduplication\<close>

lemma fromkeys_loop_distinct: "distinct keys \<Longrightarrow> distinct (fromkeys_loop xs keys)"
  by (induction xs arbitrary: keys) auto

lemma distinct_dict_fromkeys: "distinct (dict_fromkeys xs)"
  by (simp add: dict_fromkeys_def fromkeys_loop_distinct)

lemma seen_from_Nil: "seen_from S [] = []"
  by (simp add: seen_from_def)

lemma seen_from_Cons:
  "seen_from S (x # xs) = (if x \<in> S then [] else [x]) @ seen_from (insert x S) xs"
proof -
  have u: "[0..<length (x # xs)] = 0 # map Suc [0..<length xs]"
    by (simp add: upt_conv_Cons map_Suc_upt del: upt_Suc)
  show ?thesis
    unfolding seen_from_def u
    by (simp add: filter_map o_def conj_ac)
qed

lemma fromkeys_loop_seen: "fromkeys_loop xs keys = keys @ seen_from (set keys) xs"
  by (induction xs arbitrary: keys) (simp_all add: seen_from_Nil seen_from_Cons insert_absorb)

lemma dict_fromkeys_first_seen: "dict_fromkeys xs = first_seen xs"
  by (simp add: dict_fromkeys_def fromkeys_loop_seen first_seen_def seen_from_def)



section \<open>Enumerator: output that is not blank has a line that is not blank\<close>

lemma is_linebreak_space: "is_linebreak c \<Longrightarrow> is_space c"
  by (auto simp: is_linebreak_def is_space_def Let_def)

lemma cr_space: "code_point c = 13 \<Longrightarrow> is_space c"
  and lf_space: "code_point c = 10 \<Longrightarrow> is_space c"
  by (auto simp: is_space_def Let_def)

lemma splitlines_from_keeps:
  "\<exists>c \<in> set cur \<union> set s. \<not> is_space c
   \<Longrightarrow> \<exists>l \<in> set (splitlines_from cur s). \<exists>c \<in> set l. \<not> is_space c"
proof (induction cur s rule: splitlines_from.induct)
  case (1 cur)
  then show ?case by auto
next
  case (2 cur c)
  then show ?case by (auto dest: is_linebreak_space)
next
  case (3 cur c d cs)
  then show ?case
    by (auto dest: is_linebreak_space cr_space lf_space)
qed

lemma strip_nonempty: "\<exists>c \<in> set l. \<not> is_space c \<Longrightarrow> strip l \<noteq> []"
proof -
  assume a: "\<exists>c \<in> set l. \<not> is_space c"
  then have ne: "dropWhile is_space l \<noteq> []" by (simp add: dropWhile_eq_Nil_conv)
  then have "\<not> is_space (hd (dropWhile is_space l))" by (rule hd_dropWhile)
  moreover have "hd (dropWhile is_space l) \<in> set (rev (dropWhile is_space l))"
    using ne by simp
  ultimately have "dropWhile is_space (rev (dropWhile is_space l)) \<noteq> []"
    by (auto simp: dropWhile_eq_Nil_conv)
  then show ?thesis by (simp add: strip_def strip_chars_def)
qed

lemma strip_has_nonspace: "strip x \<noteq> [] \<Longrightarrow> \<exists>c \<in> set (strip x). \<not> is_space c"
proof -
  assume "strip x \<noteq> []"
  then have ne: "dropWhile is_space (rev (dropWhile is_space x)) \<noteq> []"
    by (simp add: strip_def strip_chars_def)
  then have "\<not> is_space (hd (dropWhile is_space (rev (dropWhile is_space x))))"
    by (rule hd_dropWhile)
  moreover have "hd (dropWhile is_space (rev (dropWhile is_space x))) \<in> set (strip x)"
    using ne by (simp add: strip_def strip_chars_def)
  ultimately show ?thesis by blast
qed

lemma nonblank_lines_nonempty:
  assumes "strip x \<noteq> []" shows "nonblank_lines (strip x) \<noteq> []"
proof -
  from strip_has_nonspace [OF assms]
  have "\<exists>c \<in> set [] \<union> set (strip x). \<not> is_space c" by simp
  from splitlines_from_keeps [OF this]
  obtain l where l: "l \<in> set (splitlines (strip x))" "\<exists>c \<in> set l. \<not> is_space c"
    by (auto simp: splitlines_def)
  from l(2) have "strip l \<noteq> []" by (rule strip_nonempty)
  with l(1) have "l \<in> set (filter (\<lambda>line. strip line \<noteq> []) (splitlines (strip x)))" by simp
  then have "filter (\<lambda>line. strip line \<noteq> []) (splitlines (strip x)) \<noteq> []"
    by (metis empty_iff empty_set)
  then show ?thesis by (simp add: nonblank_lines_def)
qed

lemma dict_fromkeys_Nil_iff: "dict_fromkeys xs = [] \<longleftrightarrow> xs = []"
  by (cases xs) (simp_all add: dict_fromkeys_def fromkeys_loop_seen seen_from_Nil seen_from_Cons)

lemma nonblank_lines_Nil: "nonblank_lines [] = []"
  by (simp add: nonblank_lines_def splitlines_def)



section \<open>Enumerator: the strategies in terms of the commands\<close>

lemma except_pass_pnp_block:
  "except_pass (pnp_block env command w)
   = (case procs env (powershell_argv command) of
        Raises e \<Rightarrow> None
      | Completed rc out err \<Rightarrow> if strip out \<noteq> [] then Some (nonblank_lines (strip out)) else None,
      w\<lparr>log := log w @ [Spawned (powershell_argv command)]\<rparr>)"
  by (simp add: except_pass_def pnp_block_def run_powershell_def Let_def split: proc_result.splits)

lemma except_pass_pnp_block_all:
  "except_pass (pnp_block_all env w)
   = (case procs env (powershell_argv ps_cmd_all) of
        Raises e \<Rightarrow> None
      | Completed rc out err \<Rightarrow>
          if strip out \<noteq> []
          then Some (filter (\<lambda>name. list_ex (\<lambda>k. str_in k (lower name)) pnp_keywords)
                       (nonblank_lines (strip out)))
          else None,
      w\<lparr>log := log w @ [Spawned (powershell_argv ps_cmd_all)]\<rparr>)"
  by (simp add: except_pass_def pnp_block_all_def run_powershell_def Let_def split: proc_result.splits)

lemma ffmpeg_loop_eq:
  "ffmpeg_loop env ffmpeg_cmds [] w
   = (case procs env ffmpeg_argv of
        Raises e \<Rightarrow> []
      | Completed rc out err \<Rightarrow>
          fold ffmpeg_line (splitlines (strip out @ [CHR 0x0A] @ strip err)) [],
      w\<lparr>log := log w @ [Spawned ffmpeg_argv]\<rparr>)"
  by (simp add: ffmpeg_cmds_def ffmpeg_argv_def run_cmd_def Let_def split: proc_result.splits)

lemma pnp_result:
  "fst (find_capture_devices_pnp env w)
   = Inr (first_nonempty (take 3 (strategy_results env)))"
  unfolding find_capture_devices_pnp_def strategy_results_def
    except_pass_pnp_block except_pass_pnp_block_all
  by (simp add: dict_fromkeys_Nil_iff nonblank_lines_nonempty nonblank_lines_Nil
        split: proc_result.splits)

lemma ffmpeg_result:
  "fst (find_capture_devices_ffmpeg env w) = Inr (strategy_results env ! 3)"
  unfolding find_capture_devices_ffmpeg_def strategy_results_def ffmpeg_loop_eq
  by (simp add: dict_fromkeys_Nil_iff split: proc_result.splits)

lemma pnp_Inr: "\<exists>names w'. find_capture_devices_pnp env w = (Inr names, w')"
  unfolding find_capture_devices_pnp_def except_pass_pnp_block except_pass_pnp_block_all
  by (simp split: option.splits)

lemma ffmpeg_Inr: "\<exists>names w'. find_capture_devices_ffmpeg env w = (Inr names, w')"
  unfolding find_capture_devices_ffmpeg_def by (simp split: prod.splits)


text \<open>
  C5, as the code has it. \<open>find_capture_devices\<close> never raises: for every behaviour
  of the commands and every world it returns a list. The list is the contribution of the
  first of the four strategies, in their fixed order, that contributes a name; a strategy
  whose command raises (launch failure, timeout) or prints nothing contributes no name and
  is passed over, and when no strategy contributes a name the result is the empty list.
  The return code is not looked at: a command that exits with a non-zero code and prints
  names contributes those names.
\<close>

theorem find_capture_devices_first_nonempty:
  "(\<exists>names w'. find_capture_devices env w = (Inr names, w'))
   \<and> fst (find_capture_devices env w) = Inr (first_nonempty (strategy_results env))"
proof -
  obtain pnp w' where p: "find_capture_devices_pnp env w = (Inr pnp, w')"
    using pnp_Inr by blast
  obtain ff w'' where f: "find_capture_devices_ffmpeg env w' = (Inr ff, w'')"
    using ffmpeg_Inr by blast
  have pr: "pnp = first_nonempty (take 3 (strategy_results env))"
    using pnp_result [of env w] p by simp
  have fr: "ff = strategy_results env ! 3"
    using ffmpeg_result [of env w'] f by simp
  have len: "\<exists>a b c d. strategy_results env = [a, b, c, d]"
    by (simp add: strategy_results_def)
  then obtain a b c d where s: "strategy_results env = [a, b, c, d]" by blast
  have res: "find_capture_devices env w = (if pnp \<noteq> [] then (Inr pnp, w') else (Inr ff, w''))"
    by (simp add: find_capture_devices_def p f)
  have "(if pnp \<noteq> [] then pnp else ff) = first_nonempty (strategy_results env)"
    using pr fr s by auto
  with res show ?thesis by auto
qed


text \<open>The first query prints \<open>Foo\<close> and exits with code 1, and no other command can
  be launched: every command fails in the specification's sense, and the result is
  \<open>Foo\<close>, not the empty list.\<close>

theorem find_capture_devices_exit_code_counterexample:
  "command_fails (exit_one_procs (powershell_argv ps_cmd))
   \<and> command_fails (exit_one_procs (powershell_argv ps_cmd_camera))
   \<and> command_fails (exit_one_procs (powershell_argv ps_cmd_all))
   \<and> command_fails (exit_one_procs ffmpeg_argv)
   \<and> fst (find_capture_devices (fixture_env exit_one_procs) (fixture_world ''unpinned''))
       = Inr [''Foo'']"
  by code_simp



section \<open>Enumerator: first-seen order without duplicates\<close>

lemma first_seen_Nil: "first_seen [] = []"
  by (simp add: first_seen_def)

lemma distinct_first_seen: "distinct (first_seen xs)"
  using distinct_dict_fromkeys [of xs] by (simp add: dict_fromkeys_first_seen)

lemma pnp_first_seen:
  "fst (find_capture_devices_pnp env w) = Inr (first_seen (pnp_candidates env w))"
  unfolding find_capture_devices_pnp_def pnp_candidates_def
    except_pass_pnp_block except_pass_pnp_block_all
  by (simp add: dict_fromkeys_first_seen first_seen_Nil split: proc_result.splits)

lemma ffmpeg_first_seen:
  "fst (find_capture_devices_ffmpeg env w) = Inr (first_seen (ffmpeg_devices env w))"
  by (simp add: find_capture_devices_ffmpeg_def ffmpeg_devices_def dict_fromkeys_first_seen
      split: prod.splits)


text \<open>
  C6. The list returned by \<open>find_capture_devices_pnp\<close>, by
  \<open>find_capture_devices_ffmpeg\<close> and by \<open>find_capture_devices\<close> is the list of
  names read from the query output, each name kept at its first occurrence and nowhere
  else, in the order of these first occurrences; it has no duplicates (names are compared
  as strings, exactly).
\<close>

theorem find_capture_devices_first_seen:
  "fst (find_capture_devices_pnp env w) = Inr (first_seen (pnp_candidates env w))
   \<and> fst (find_capture_devices_ffmpeg env w) = Inr (first_seen (ffmpeg_devices env w))
   \<and> fst (find_capture_devices env w) = Inr (first_seen (raw_names env w))
   \<and> distinct (first_seen (pnp_candidates env w))
   \<and> distinct (first_seen (ffmpeg_devices env w))
   \<and> distinct (first_seen (raw_names env w))
   \<and> first_seen raw = dict_fromkeys raw"
proof -
  obtain pnp w' where p: "find_capture_devices_pnp env w = (Inr pnp, w')"
    using pnp_Inr by blast
  have pr: "pnp = first_seen (pnp_candidates env w)"
    using pnp_first_seen [of env w] p by simp
  have "fst (find_capture_devices env w) = Inr (first_seen (raw_names env w))"
  proof (cases "pnp = []")
    case True
    then show ?thesis
      using ffmpeg_first_seen [of env w']
      by (simp add: find_capture_devices_def raw_names_def p)
  next
    case False
    then show ?thesis
      using pr by (simp add: find_capture_devices_def raw_names_def p)
  qed
  then show ?thesis
    by (simp add: pnp_first_seen ffmpeg_first_seen distinct_first_seen dict_fromkeys_first_seen)
qed


lemma find_capture_devices_camera_example:
  "fst (find_capture_devices (fixture_env camera_procs) (fixture_world ''unpinned''))
     = Inr [''Cam B'', ''Cam A'']
   \<and> raw_names (fixture_env camera_procs) (fixture_world ''unpinned'')
     = [''Cam B'', ''Cam A'', ''Cam B'']"
  by code_simp


section \<open>Frame acquisition: schedules\<close>

lemma exec_Nil: "exec cam [] s = s"
  by (simp add: exec_def)

lemma exec_Cons: "exec cam (a # sched) s = exec cam sched (sys_step cam a s)"
  by (simp add: exec_def)

lemma exec_append: "exec cam (xs @ ys) s = exec cam ys (exec cam xs s)"
  by (simp add: exec_def)


section \<open>Frame acquisition: both opens fail\<close>

lemma spinning_init: "spinning (init name)"
  by (simp add: spinning_def init_def)

lemma spinning_step: "spinning s \<Longrightarrow> spinning (run_step dead_cam s)"
  by (auto simp: spinning_def run_step_def dead_cam_def)

lemma spinning_exec: "spinning s \<Longrightarrow> spinning (exec dead_cam (replicate n Thread) s)"
  by (induction n arbitrary: s) (simp_all add: exec_Nil exec_Cons sys_step_def spinning_step)


lemma run_fallback_raises_quiet:
  assumes "cv2_present cam" and "open_named cam (''dshow:video='' @ name) = Handle False"
    and "open_index cam 0 = OpenRaises"
  shows "exec cam [Thread, Thread, Thread] (init name)
         = (init name)\<lparr>cap := Some False, pc := Done, trace := [Released Thread]\<rparr>"
  using assms by (simp add: exec_def sys_step_def run_step_def init_def)

text \<open>
  C7, at the failing input. On a backend where the open by name and the open by index 0
  both return a handle that is not opened, and neither raises, \<open>run\<close> does not end as
  long as \<open>stop\<close> is not called: after any number of its steps it has not reached its
  end. It has emitted no frame and raised nothing; it keeps reading the unopened handle.
  (When the second open raises, \<open>run\<close> does end, as \<open>run_fallback_raises_quiet\<close>
  shows.)
\<close>

theorem run_double_open_failure_spins:
  "pc (exec dead_cam (replicate n Thread) (init name)) \<noteq> Done
   \<and> emitted (exec dead_cam (replicate n Thread) (init name)) = []
   \<and> \<not> raised (exec dead_cam (replicate n Thread) (init name))"
  using spinning_exec [OF spinning_init, of n name]
  by (auto simp: spinning_def emitted_def)



section \<open>Frame acquisition: after the stop signal\<close>

lemma run_step_running: "running (run_step cam s) = running s"
  by (cases "pc s")
     (simp_all add: run_step_def split: open_result.splits read_result.splits option.splits)

lemma run_step_hpc: "hpc (run_step cam s) = hpc s"
  by (cases "pc s")
     (simp_all add: run_step_def split: open_result.splits read_result.splits option.splits)

lemma stop_step_pc: "pc (stop_step s) = pc s"
  by (cases "hpc s") (simp_all add: stop_step_def split: option.splits)

lemma stop_step_emitted: "emitted (stop_step s) = emitted s"
  by (cases "hpc s") (simp_all add: stop_step_def emitted_def split: option.splits)

lemma stop_step_running: "\<not> running s \<Longrightarrow> \<not> running (stop_step s)"
  by (cases "hpc s") (simp_all add: stop_step_def split: option.splits)

lemma sys_step_running: "\<not> running s \<Longrightarrow> \<not> running (sys_step cam a s)"
  by (cases a) (simp_all add: sys_step_def run_step_running stop_step_running)

lemma boundary_run_step:
  assumes "\<not> running s" "at_boundary s"
  shows "at_boundary (run_step cam s) \<and> emitted (run_step cam s) = emitted s"
  using assms
  by (cases "pc s") (simp_all add: run_step_def at_boundary_def emitted_def split: option.splits)

lemma boundary_step:
  assumes "\<not> running s" "at_boundary s"
  shows "at_boundary (sys_step cam a s) \<and> emitted (sys_step cam a s) = emitted s"
proof (cases a)
  case Thread
  with boundary_run_step [OF assms] show ?thesis by (simp add: sys_step_def)
next
  case Host
  with assms(2) show ?thesis
    by (simp add: sys_step_def stop_step_emitted at_boundary_def stop_step_pc)
qed

lemma boundary_exec:
  "\<not> running s \<Longrightarrow> at_boundary s \<Longrightarrow> emitted (exec cam sched s) = emitted s"
proof (induction sched arbitrary: s)
  case Nil
  then show ?case by (simp add: exec_Nil)
next
  case (Cons a sched)
  from boundary_step [OF Cons.prems, of cam a] sys_step_running [OF Cons.prems(1), of cam a]
  show ?case by (simp add: exec_Cons Cons.IH)
qed

lemma pending_run_step:
  assumes "\<not> running s" "in_loop s"
  shows "length (emitted (run_step cam s)) + pending (run_step cam s)
         \<le> length (emitted s) + pending s \<and> in_loop (run_step cam s)"
  using assms
  by (cases "pc s")
     (simp_all add: run_step_def pending_def emitted_def in_loop_def
        split: read_result.splits option.splits)

lemma pending_step:
  assumes "\<not> running s" "in_loop s"
  shows "length (emitted (sys_step cam a s)) + pending (sys_step cam a s)
         \<le> length (emitted s) + pending s \<and> in_loop (sys_step cam a s)"
proof (cases a)
  case Thread
  with pending_run_step [OF assms] show ?thesis by (simp add: sys_step_def)
next
  case Host
  with assms(2) show ?thesis
    by (simp add: sys_step_def stop_step_emitted pending_def in_loop_def stop_step_pc)
qed

lemma pending_exec:
  "\<not> running s \<Longrightarrow> in_loop s
   \<Longrightarrow> length (emitted (exec cam sched s)) \<le> length (emitted s) + pending s"
proof (induction sched arbitrary: s)
  case Nil
  then show ?case by (simp add: exec_Nil)
next
  case (Cons a sched)
  from pending_step [OF Cons.prems, of cam a] sys_step_running [OF Cons.prems(1), of cam a]
  have "length (emitted (exec cam sched (sys_step cam a s)))
        \<le> length (emitted (sys_step cam a s)) + pending (sys_step cam a s)"
    by (intro Cons.IH) auto
  with pending_step [OF Cons.prems, of cam a] show ?case by (simp add: exec_Cons)
qed

lemma steps_left_run_step:
  assumes "\<not> running s"
  shows "steps_left (run_step cam s) + 1 \<le> steps_left s
         \<or> (steps_left (run_step cam s) = 0 \<and> steps_left s = 0)"
  using assms
  by (cases "pc s")
     (simp_all add: run_step_def steps_left_def
        split: open_result.splits read_result.splits option.splits)

lemma steps_left_stop_step: "steps_left (stop_step s) = steps_left s"
  by (simp add: steps_left_def stop_step_pc)

lemma steps_left_exec:
  "\<not> running s \<Longrightarrow> steps_left (exec cam sched s) \<le> steps_left s - thread_steps sched"
proof (induction sched arbitrary: s)
  case Nil
  then show ?case by (simp add: exec_Nil thread_steps_def)
next
  case (Cons a sched)
  from Cons.IH [OF sys_step_running [OF Cons.prems, of cam a]]
  have ih: "steps_left (exec cam sched (sys_step cam a s))
        \<le> steps_left (sys_step cam a s) - thread_steps sched" .
  show ?case
  proof (cases a)
    case Thread
    with ih steps_left_run_step [OF Cons.prems, of cam] show ?thesis
      by (auto simp: exec_Cons thread_steps_def sys_step_def)
  next
    case Host
    with ih show ?thesis
      by (simp add: exec_Cons thread_steps_def sys_step_def steps_left_stop_step)
  qed
qed

lemma steps_left_le: "steps_left s \<le> 5"
  by (simp add: steps_left_def split: pc.splits)

lemma steps_left_Done: "steps_left s = 0 \<longleftrightarrow> pc s = Done"
  by (simp add: steps_left_def split: pc.splits)

lemma stopped_terminates:
  assumes "\<not> running s" "5 \<le> thread_steps sched"
  shows "pc (exec cam sched s) = Done"
proof -
  have "steps_left (exec cam sched s) \<le> steps_left s - thread_steps sched"
    using assms(1) by (rule steps_left_exec)
  with steps_left_le [of s] assms(2) have "steps_left (exec cam sched s) = 0" by simp
  then show ?thesis by (simp add: steps_left_Done)
qed


section \<open>Frame acquisition: how often the handle is released\<close>

lemma run_step_trace:
  "trace (run_step cam s)
   = (case pc s of
        Emit f \<Rightarrow> trace s @ [Emitted f]
      | Finally \<Rightarrow> (if cap s = None then trace s else trace s @ [Released Thread])
      | _ \<Rightarrow> trace s)"
  by (cases "pc s")
     (simp_all add: run_step_def split: open_result.splits read_result.splits option.splits)

lemma run_step_Done:
  "pc (run_step cam s) = Done
   \<longleftrightarrow> pc s = Done \<or> pc s = Finally \<or> (pc s = Start \<and> \<not> cv2_present cam)"
  by (cases "pc s")
     (simp_all add: run_step_def split: open_result.splits read_result.splits option.splits)

lemma run_step_cap: "cap s \<noteq> None \<Longrightarrow> cap (run_step cam s) \<noteq> None"
  by (cases "pc s")
     (auto simp: run_step_def split: open_result.splits read_result.splits)

lemma run_step_in_loop: "in_loop s \<Longrightarrow> in_loop (run_step cam s)"
  by (cases "pc s")
     (simp_all add: in_loop_def run_step_def split: open_result.splits read_result.splits option.splits)

lemma stop_step_trace:
  "trace (stop_step s)
   = (if hpc s = H_Release \<and> cap s \<noteq> None then trace s @ [Released Host] else trace s)"
  by (cases "hpc s") (simp_all add: stop_step_def split: option.splits)

lemma stop_step_hpc:
  "hpc (stop_step s)
   = (case hpc s of H_Idle \<Rightarrow> H_Release | H_Release \<Rightarrow> H_Wait | H_Wait \<Rightarrow> H_Done
      | H_Done \<Rightarrow> H_Done)"
  by (cases "hpc s") (simp_all add: stop_step_def split: option.splits)

lemma stop_step_cap: "cap s \<noteq> None \<Longrightarrow> cap (stop_step s) \<noteq> None"
  by (cases "hpc s") (auto simp: stop_step_def)

lemma stop_step_running_Idle: "hpc (stop_step s) = H_Idle \<Longrightarrow> False"
  by (cases "hpc s") (simp_all add: stop_step_def split: option.splits)

lemma fresh_init: "fresh (init name)"
  by (simp add: fresh_def init_def released_by_def)

lemma fresh_run_step:
  assumes "fresh s" shows "fresh (run_step cam s)"
proof -
  have 1: "pc (run_step cam s) \<noteq> Done \<longrightarrow> released_by Thread (run_step cam s) = 0"
    using assms
    by (cases "pc s") (simp_all add: run_step_Done fresh_def released_by_def run_step_trace)
  have 2: "released_by Host (run_step cam s) = released_by Host s"
    by (cases "pc s") (simp_all add: released_by_def run_step_trace)
  from 1 2 assms show ?thesis by (simp add: fresh_def run_step_hpc)
qed

lemma fresh_stop_step:
  assumes "fresh s" shows "fresh (stop_step s)"
proof -
  have 1: "released_by Thread (stop_step s) = released_by Thread s"
    by (simp add: released_by_def stop_step_trace)
  have 2: "hpc (stop_step s) \<noteq> H_Idle"
    using stop_step_running_Idle by blast
  from 1 2 assms show ?thesis by (simp add: fresh_def stop_step_pc)
qed

lemma fresh_exec: "fresh s \<Longrightarrow> fresh (exec cam sched s)"
proof (induction sched arbitrary: s)
  case Nil
  then show ?case by (simp add: exec_Nil)
next
  case (Cons a sched)
  then show ?case
    by (cases a) (simp_all add: exec_Cons sys_step_def fresh_run_step fresh_stop_step)
qed

lemma counted_run_step:
  assumes "counted s" shows "counted (run_step cam s)"
proof -
  from assms have c: "cap s \<noteq> None" and l: "in_loop s"
    and t: "released_by Thread s = (if pc s = Done then 1 else 0)"
    and h: "released_by Host s = (if hpc s = H_Wait \<or> hpc s = H_Done then 1 else 0)"
    by (simp_all add: counted_def)
  have 1: "released_by Thread (run_step cam s) = (if pc (run_step cam s) = Done then 1 else 0)"
    using c l t
    by (cases "pc s") (simp_all add: run_step_Done released_by_def run_step_trace in_loop_def)
  have 2: "released_by Host (run_step cam s) = released_by Host s"
    by (cases "pc s") (simp_all add: released_by_def run_step_trace)
  from 1 2 h run_step_cap [OF c] run_step_in_loop [OF l] show ?thesis
    by (simp add: counted_def run_step_hpc)
qed

lemma counted_stop_step:
  assumes "counted s" shows "counted (stop_step s)"
proof -
  from assms have c: "cap s \<noteq> None" and l: "in_loop s"
    and t: "released_by Thread s = (if pc s = Done then 1 else 0)"
    and h: "released_by Host s = (if hpc s = H_Wait \<or> hpc s = H_Done then 1 else 0)"
    by (simp_all add: counted_def)
  have 1: "released_by Thread (stop_step s) = released_by Thread s"
    by (simp add: released_by_def stop_step_trace)
  have 2: "released_by Host (stop_step s)
           = (if hpc (stop_step s) = H_Wait \<or> hpc (stop_step s) = H_Done then 1 else 0)"
    using c h by (cases "hpc s") (simp_all add: released_by_def stop_step_trace stop_step_hpc)
  from 1 2 t l stop_step_cap [OF c] show ?thesis
    by (simp add: counted_def stop_step_pc in_loop_def)
qed

lemma counted_exec: "counted s \<Longrightarrow> counted (exec cam sched s)"
proof (induction sched arbitrary: s)
  case Nil
  then show ?case by (simp add: exec_Nil)
next
  case (Cons a sched)
  then show ?case
    by (cases a) (simp_all add: exec_Cons sys_step_def counted_run_step counted_stop_step)
qed

lemma streaming_counted:
  assumes "fresh s" "streaming s" "hpc s = H_Idle"
  shows "counted s"
  using assms
  by (cases "pc s") (simp_all add: fresh_def streaming_def counted_def in_loop_def)

lemma releases_sum: "releases s = released_by Thread s + released_by Host s"
proof -
  have "length (filter (\<lambda>e. case e of Emitted f \<Rightarrow> False | Released a \<Rightarrow> True) t)
        = length (filter (\<lambda>e. e = Released Thread) t) + length (filter (\<lambda>e. e = Released Host) t)"
    for t :: "cam_event list"
  proof (induction t)
    case Nil
    then show ?case by simp
  next
    case (Cons e t)
    then show ?case
    proof (cases e)
      case (Emitted f)
      with Cons show ?thesis by simp
    next
      case (Released a)
      with Cons show ?thesis by (cases a) simp_all
    qed
  qed
  then show ?thesis by (simp add: releases_def released_by_def)
qed



text \<open>
  C8, as the code has it. Let \<open>stop\<close> be called while the loop is streaming (a handle
  is in \<open>self._cap\<close>, \<open>run\<close> is inside the \<open>while\<close>), and let the two threads
  go on in any interleaving. Then at most one more frame is emitted; from the moment
  \<open>run\<close> stands at the loop test or beyond, no frame is emitted at all; \<open>run\<close>
  ends within five steps of its own; and when both \<open>run\<close> and \<open>stop\<close> are over,
  \<open>release\<close> has been called on the handle twice: once by \<open>stop\<close> and once by the
  \<open>finally\<close> of \<open>run\<close>.
\<close>

theorem stop_mid_stream:
  assumes "streaming (exec cam before (init name))"
    and "hpc (exec cam before (init name)) = H_Idle"
  shows "length (emitted (exec cam (before @ Host # after) (init name)))
           \<le> length (emitted (exec cam before (init name))) + 1
         \<and> (at_boundary (exec cam (before @ Host # after) (init name))
              \<longrightarrow> emitted (exec cam (before @ Host # after @ later) (init name))
                  = emitted (exec cam (before @ Host # after) (init name)))
         \<and> (5 \<le> thread_steps after
              \<longrightarrow> pc (exec cam (before @ Host # after) (init name)) = Done)
         \<and> (pc (exec cam (before @ Host # after) (init name)) = Done
              \<and> hpc (exec cam (before @ Host # after) (init name)) = H_Done
              \<longrightarrow> released_by Thread (exec cam (before @ Host # after) (init name)) = 1
                \<and> released_by Host (exec cam (before @ Host # after) (init name)) = 1
                \<and> releases (exec cam (before @ Host # after) (init name)) = 2)"
proof -
  let ?s1 = "exec cam before (init name)"
  let ?s2 = "sys_step cam Host ?s1"
  let ?s3 = "exec cam after ?s2"
  have e3: "exec cam (before @ Host # after) (init name) = ?s3"
    by (simp add: exec_append exec_Cons)
  have e4: "exec cam (before @ Host # after @ later) (init name) = exec cam later ?s3"
    by (simp add: exec_append exec_Cons)
  have s2: "?s2 = ?s1\<lparr>running := False, hpc := H_Release\<rparr>"
    using assms(2) by (simp add: sys_step_def stop_step_def)
  have nr2: "\<not> running ?s2" by (simp add: s2)
  have nr3: "\<not> running ?s3"
    using nr2 by (induction after arbitrary: rule: rev_induct)
      (simp_all add: exec_Nil exec_append exec_Cons sys_step_running)
  have loop2: "in_loop ?s2"
    using assms(1) by (cases "pc ?s1") (simp_all add: s2 streaming_def in_loop_def)
  have em2: "emitted ?s2 = emitted ?s1" by (simp add: s2 emitted_def)
  have "pending ?s2 \<le> 1" by (simp add: pending_def split: pc.splits)
  with pending_exec [OF nr2 loop2, where sched = after and cam = cam] em2
  have a: "length (emitted ?s3) \<le> length (emitted ?s1) + 1" by simp
  have b: "at_boundary ?s3 \<longrightarrow> emitted (exec cam later ?s3) = emitted ?s3"
    using boundary_exec [OF nr3, where cam = cam and sched = later] by blast
  have c: "5 \<le> thread_steps after \<longrightarrow> pc ?s3 = Done"
    using stopped_terminates [OF nr2, where cam = cam and sched = after] by blast
  have "fresh ?s1" by (rule fresh_exec) (rule fresh_init)
  then have "counted ?s1" using assms by (rule streaming_counted)
  then have "counted (exec cam (Host # after) ?s1)" by (rule counted_exec)
  then have cnt: "counted ?s3" by (simp add: exec_Cons)
  have d: "pc ?s3 = Done \<and> hpc ?s3 = H_Done
           \<longrightarrow> released_by Thread ?s3 = 1 \<and> released_by Host ?s3 = 1 \<and> releases ?s3 = 2"
    using cnt by (simp add: counted_def releases_sum)
  from a b c d show ?thesis unfolding e3 e4 by blast
qed

theorem stop_mid_stream_witness:
  "streaming (exec live_cam before_stop (init ''USB Video''))
   \<and> hpc (exec live_cam before_stop (init ''USB Video'')) = H_Idle
   \<and> at_boundary (exec live_cam (before_stop @ Host # after_stop) (init ''USB Video''))
   \<and> 5 \<le> thread_steps after_stop
   \<and> pc (exec live_cam (before_stop @ Host # after_stop) (init ''USB Video'')) = Done
   \<and> hpc (exec live_cam (before_stop @ Host # after_stop) (init ''USB Video'')) = H_Done
   \<and> emitted (exec live_cam (before_stop @ Host # after_stop @ [Thread, Thread])
                (init ''USB Video''))
       = emitted (exec live_cam (before_stop @ Host # after_stop) (init ''USB Video''))
   \<and> releases (exec live_cam (before_stop @ Host # after_stop) (init ''USB Video'')) = 2"
proof -
  have h1: "streaming (exec live_cam before_stop (init ''USB Video''))" by code_simp
  have h2: "hpc (exec live_cam before_stop (init ''USB Video'')) = H_Idle" by code_simp
  have h3: "at_boundary (exec live_cam (before_stop @ Host # after_stop) (init ''USB Video''))"
    by code_simp
  have h4: "5 \<le> thread_steps after_stop" by code_simp
  have h5: "pc (exec live_cam (before_stop @ Host # after_stop) (init ''USB Video'')) = Done"
    by code_simp
  have h6: "hpc (exec live_cam (before_stop @ Host # after_stop) (init ''USB Video'')) = H_Done"
    by code_simp
  from stop_mid_stream [OF h1 h2, of after_stop "[Thread, Thread]"] h1 h2 h3 h4 h5 h6
  show ?thesis by blast
qed


text \<open>One frame is streamed, \<open>stop\<close> runs to its end, \<open>run\<close> leaves the loop:
  two calls of \<open>release\<close>, not one.\<close>

theorem stop_releases_twice_counterexample:
  "streaming (exec live_cam [Thread, Thread, Thread, Thread] (init ''USB Video''))
   \<and> pc (exec live_cam ([Thread, Thread, Thread, Thread] @ [Host, Host, Host]
                          @ [Thread, Thread, Thread]) (init ''USB Video'')) = Done
   \<and> releases (exec live_cam ([Thread, Thread, Thread, Thread] @ [Host, Host, Host]
                          @ [Thread, Thread, Thread]) (init ''USB Video'')) = 2"
  by code_simp


end
